theory Spec2Isabelle
  imports Main "HOL-Library.Multiset" "HOL-Library.Sublist"
begin

section \<open>The retrieval-ranking core of the SHL assessment recommender\<close>

text \<open>
  This theory embeds \<^verbatim>\<open>src/core/recommender.py\<close>: the category inference
  \<^verbatim>\<open>_analyze_query_with_llm\<close>, the round-robin merge \<^verbatim>\<open>_interleave_lists\<close>
  and the pipeline \<^verbatim>\<open>get_recommendations\<close> (key mapping, broad search, bucketing,
  interleaving, de-duplication with truncation).

  Python values are modelled as follows.
  \<^item> A \<^verbatim>\<open>str\<close> is a \<^typ>\<open>string\<close>, one \<^typ>\<open>char\<close> per code point (code points
    above 255 are outside the model).
  \<^item> A metadata \<^verbatim>\<open>dict\<close> is a map from field names to values. The dicts that the
    search returns are objects that the code updates in place, so they live in a heap
    and the lists of the program hold references to them.
  \<^item> An exception is a value of \<open>py_error\<close>; a function that may raise returns
    \<open>py_error + 'a\<close>, with \<open>Inl\<close> for the exception.
  \<^item> The three external services (the Gemini classifier, the sentence embedder and the
    Chroma collection) are parameters: functions giving the outcome of each call.
\<close>

subsection \<open>Values, dictionaries, heap\<close>

datatype py_error = KeyError | TypeError | ValueError | AttributeError | ExternalError

text \<open>The values a metadata field holds: a string, an integer, or the list of strings
  that line 154 stores into \<^verbatim>\<open>test_type\<close>.\<close>

datatype pyval = PStr string | PInt int | PStrList "string list"

type_synonym pydict = "string \<rightharpoonup> pyval"

type_synonym ref = nat

type_synonym heap = "ref \<Rightarrow> pydict"

text \<open>A list is not hashable: using it as an element of a \<^verbatim>\<open>set\<close> raises TypeError.\<close>

fun hashable :: "pyval \<Rightarrow> bool" where
  "hashable (PStrList _) = False"
| "hashable _ = True"

text \<open>The result of \<^verbatim>\<open>json.loads\<close>. A number is kept as an integer: all that the
  program asks of a number is that it is not a list and not a key of the type map.\<close>

datatype json = JNull | JBool bool | JNum int | JStr string
  | JArr "json list" | JObj "(string \<times> json) list"

subsection \<open>String operations\<close>

text \<open>\<^verbatim>\<open>str.isspace\<close> on the code points below 256.\<close>

definition isspace :: "char \<Rightarrow> bool" where
  "isspace c \<longleftrightarrow> c \<in> set [CHR 0x09, CHR 0x0A, CHR 0x0B, CHR 0x0C, CHR 0x0D,
     CHR 0x1C, CHR 0x1D, CHR 0x1E, CHR 0x1F, CHR 0x20, CHR 0x85, CHR 0xA0]"

text \<open>\<^verbatim>\<open>s.strip()\<close>\<close>

definition strip :: "string \<Rightarrow> string" where
  "strip s = rev (dropWhile isspace (rev (dropWhile isspace s)))"

text \<open>\<^verbatim>\<open>s.split(',')\<close>: the fields between the commas, empty fields included; the
  first argument is the field read so far.\<close>

fun split_from :: "string \<Rightarrow> string \<Rightarrow> string list" where
  "split_from cur [] = [cur]"
| "split_from cur (c # cs) =
     (if c = CHR '','' then cur # split_from [] cs else split_from (cur @ [c]) cs)"

definition split_comma :: "string \<Rightarrow> string list" where
  "split_comma s = split_from [] s"

text \<open>The right-hand side of line 154: \<^verbatim>\<open>[t.strip() for t in s.split(',')]\<close>\<close>

definition split_test_type :: "string \<Rightarrow> string list" where
  "split_test_type s = map strip (split_comma s)"

subsection \<open>The type map and the key mapping of line 113\<close>

definition TEST_TYPE_MAP :: "(string \<times> string) list" where
  "TEST_TYPE_MAP =
    [(''A'', ''Ability & Aptitude''),
     (''B'', ''Biodata & Situational Judgement''),
     (''C'', ''Competencies''),
     (''D'', ''Development & 360''),
     (''E'', ''Assessment Exercises''),
     (''K'', ''Knowledge & Skills''),
     (''P'', ''Personality & Behavior''),
     (''S'', ''Simulations'')]"

text \<open>\<^verbatim>\<open>TEST_TYPE_MAP.get(key)\<close>: a list or an object is not hashable and raises
  TypeError; any other value that is not one of the eight strings gives None.\<close>

fun map_get :: "json \<Rightarrow> py_error + string option" where
  "map_get (JStr s) = Inr (map_of TEST_TYPE_MAP s)"
| "map_get (JArr _) = Inl TypeError"
| "map_get (JObj _) = Inl TypeError"
| "map_get _ = Inr None"

text \<open>\<^verbatim>\<open>[TEST_TYPE_MAP.get(key) for key in keys if TEST_TYPE_MAP.get(key)]\<close>:
  None and the empty string are falsy.\<close>

fun required_type_names :: "json list \<Rightarrow> py_error + string list" where
  "required_type_names [] = Inr []"
| "required_type_names (key # keys) =
     (case map_get key of
        Inl e \<Rightarrow> Inl e
      | Inr None \<Rightarrow> required_type_names keys
      | Inr (Some name) \<Rightarrow>
          if name = [] then required_type_names keys
          else (case required_type_names keys of
                  Inl e \<Rightarrow> Inl e
                | Inr names \<Rightarrow> Inr (name # names)))"

subsection \<open>Category inference\<close>

text \<open>What lines 81 to 83 produce: an exception (the call, the reply's text or the
  JSON parser raised), or the parsed value.\<close>

datatype llm_outcome = Llm_raises | Llm_parsed json

text \<open>The global \<^verbatim>\<open>llm\<close> is None when the configuration failed; otherwise it maps
  the query (the prompt is built from it) to the outcome of the call.\<close>

type_synonym llm = "(string \<Rightarrow> llm_outcome) option"

definition analyze_query_with_llm :: "llm \<Rightarrow> string \<Rightarrow> json list" where
  "analyze_query_with_llm llm query =
     (case llm of
        None \<Rightarrow> [JStr ''K'', JStr ''P'', JStr ''A'']
      | Some generate \<Rightarrow>
          (case generate query of
             Llm_raises \<Rightarrow> [JStr ''K'', JStr ''P'']
           | Llm_parsed (JArr test_types) \<Rightarrow> test_types
           | Llm_parsed _ \<Rightarrow> [JStr ''K'', JStr ''P'']))"

subsection \<open>Interleaving\<close>

text \<open>\<^verbatim>\<open>max(...)\<close> of an empty sequence raises ValueError.\<close>

fun py_max :: "nat list \<Rightarrow> py_error + nat" where
  "py_max [] = Inl ValueError"
| "py_max (n # ns) = Inr (fold max ns n)"

text \<open>One pass of the inner loop of lines 101 to 103, for a fixed index. The
  argument \<^verbatim>\<open>lists\<close> of the source is written \<open>lsts\<close>.\<close>

definition round_at :: "nat \<Rightarrow> 'a list list \<Rightarrow> 'a list" where
  "round_at i lsts = concat (map (\<lambda>l. if i < length l then [l ! i] else []) lsts)"

definition interleave_lists :: "'a list list \<Rightarrow> py_error + 'a list" where
  "interleave_lists lsts =
     (case py_max (map length lsts) of
        Inl e \<Rightarrow> Inl e
      | Inr max_len \<Rightarrow> Inr (concat (map (\<lambda>i. round_at i lsts) [0..<max_len])))"

subsection \<open>Bucketing\<close>

text \<open>\<^verbatim>\<open>ranked_lists\<close> is a dict from category names to lists of candidates; a dict
  keeps its keys in the order of their first insertion.\<close>

type_synonym buckets = "(string \<times> ref list) list"

fun dict_setitem :: "('k \<times> 'v) list \<Rightarrow> 'k \<Rightarrow> 'v \<Rightarrow> ('k \<times> 'v) list" where
  "dict_setitem [] k v = [(k, v)]"
| "dict_setitem ((k', v') # d) k v =
     (if k' = k then (k', v) # d else (k', v') # dict_setitem d k v)"

text \<open>Line 134: \<^verbatim>\<open>{name: [] for name in required_type_names}\<close>\<close>

definition empty_buckets :: "string list \<Rightarrow> buckets" where
  "empty_buckets names = fold (\<lambda>name d. dict_setitem d name []) names []"

text \<open>Line 141: \<^verbatim>\<open>ranked_lists[type_name].append(meta)\<close>\<close>

definition bucket_append :: "buckets \<Rightarrow> string \<Rightarrow> ref \<Rightarrow> py_error + buckets" where
  "bucket_append d k m =
     (case map_of d k of
        None \<Rightarrow> Inl KeyError
      | Some l \<Rightarrow> Inr (dict_setitem d k (l @ [m])))"

text \<open>Line 140: \<^verbatim>\<open>type_name in meta['test_type']\<close>. On a string this is the
  substring test, on a list the membership test, on an integer a TypeError.\<close>

definition type_name_in :: "string \<Rightarrow> pydict \<Rightarrow> py_error + bool" where
  "type_name_in type_name meta =
     (case meta ''test_type'' of
        None \<Rightarrow> Inl KeyError
      | Some (PStr s) \<Rightarrow> Inr (sublist type_name s)
      | Some (PStrList l) \<Rightarrow> Inr (type_name \<in> set l)
      | Some (PInt _) \<Rightarrow> Inl TypeError)"

text \<open>The inner loop of lines 138 to 142, with its \<^verbatim>\<open>break\<close>.\<close>

fun place :: "heap \<Rightarrow> buckets \<Rightarrow> ref \<Rightarrow> string list \<Rightarrow> py_error + buckets" where
  "place h d m [] = Inr d"
| "place h d m (type_name # rest) =
     (case type_name_in type_name (h m) of
        Inl e \<Rightarrow> Inl e
      | Inr True \<Rightarrow> bucket_append d type_name m
      | Inr False \<Rightarrow> place h d m rest)"

text \<open>The outer loop of line 137.\<close>

fun fill_buckets :: "heap \<Rightarrow> buckets \<Rightarrow> ref list \<Rightarrow> string list \<Rightarrow> py_error + buckets" where
  "fill_buckets h d [] names = Inr d"
| "fill_buckets h d (m # ms) names =
     (case place h d m names of
        Inl e \<Rightarrow> Inl e
      | Inr d' \<Rightarrow> fill_buckets h d' ms names)"

text \<open>Lines 134 to 142 together.\<close>

definition rank_into_buckets :: "heap \<Rightarrow> string list \<Rightarrow> ref list \<Rightarrow> py_error + buckets" where
  "rank_into_buckets h names candidates = fill_buckets h (empty_buckets names) candidates names"

subsection \<open>De-duplication and truncation\<close>

text \<open>The loop of lines 151 to 161. \<open>recs\<close> is \<^verbatim>\<open>final_recommendations\<close>, \<open>seen\<close> is
  \<^verbatim>\<open>seen_urls\<close>. Line 154 replaces the field \<^verbatim>\<open>test_type\<close> of the object in the
  heap; line 157 reads \<^verbatim>\<open>meta['url']\<close> again, which line 154 has not changed. The
  test of line 160 runs at the end of every iteration, after the append.\<close>

fun dedup_loop :: "heap \<Rightarrow> ref list \<Rightarrow> int \<Rightarrow> ref list \<Rightarrow> pyval set
    \<Rightarrow> py_error + (ref list \<times> heap)" where
  "dedup_loop h [] max_results recs seen = Inr (recs, h)"
| "dedup_loop h (m # ms) max_results recs seen =
     (case h m ''url'' of
        None \<Rightarrow> Inl KeyError
      | Some u \<Rightarrow>
          if \<not> hashable u then Inl TypeError
          else if u \<notin> seen then
            (case h m ''test_type'' of
               None \<Rightarrow> Inl KeyError
             | Some (PStr s) \<Rightarrow>
                 let h' = h(m := (h m)(''test_type'' \<mapsto> PStrList (split_test_type s)));
                     recs' = recs @ [m];
                     seen' = insert u seen
                 in if int (length recs') \<ge> max_results then Inr (recs', h')
                    else dedup_loop h' ms max_results recs' seen'
             | Some _ \<Rightarrow> Inl AttributeError)
          else if int (length recs) \<ge> max_results then Inr (recs, h)
          else dedup_loop h ms max_results recs seen)"

text \<open>Lines 148 to 163.\<close>

definition dedup_and_format :: "heap \<Rightarrow> ref list \<Rightarrow> int \<Rightarrow> py_error + (ref list \<times> heap)" where
  "dedup_and_format h final_list max_results = dedup_loop h final_list max_results [] {}"

subsection \<open>The pipeline\<close>

text \<open>The outcome of \<^verbatim>\<open>self.collection.query(...)\<close>: an exception, or a result whose
  field \<^verbatim>\<open>metadatas\<close> is None or a list with one list of metadata dicts per query
  embedding.\<close>

datatype search_outcome = Search_raises | Search_returns "ref list list option"

text \<open>The recommender object. \<open>client\<close> tells whether \<^verbatim>\<open>self.client\<close> is set;
  \<open>embed_model\<close> is None when \<^verbatim>\<open>self.embed_model\<close> is, and otherwise maps the query to
  its embedding, or to None when \<^verbatim>\<open>encode\<close> raises; \<open>collection_query\<close> takes the
  embedding and \<^verbatim>\<open>n_results\<close>.\<close>

record 'v recommender =
  client :: bool
  embed_model :: "(string \<Rightarrow> 'v option) option"
  collection_query :: "'v \<Rightarrow> nat \<Rightarrow> search_outcome"

text \<open>An element of the returned list: one of the retrieved metadata dicts (by
  reference), or the dict literal of line 108.\<close>

datatype record_ref = Retrieved ref | Literal pydict

fun deref :: "heap \<Rightarrow> record_ref \<Rightarrow> pydict" where
  "deref h (Retrieved m) = h m"
| "deref h (Literal d) = d"

text \<open>\<open>h\<close> is the heap as the broad search leaves it: it holds the metadata dicts that
  the search returns. Nothing before the search reads or writes the heap. The result
  is the returned list and the heap at the return.\<close>

definition get_recommendations :: "'v recommender \<Rightarrow> llm \<Rightarrow> heap \<Rightarrow> string \<Rightarrow> int
    \<Rightarrow> py_error + (record_ref list \<times> heap)" where
  "get_recommendations self llm h query max_results =
     (case (client self, embed_model self) of
        (True, Some encode) \<Rightarrow>
          (case required_type_names (analyze_query_with_llm llm query) of
             Inl e \<Rightarrow> Inl e
           | Inr names \<Rightarrow>
               (case encode query of
                  None \<Rightarrow> Inl ExternalError
                | Some query_embedding \<Rightarrow>
                    (case collection_query self query_embedding 30 of
                       Search_raises \<Rightarrow> Inr ([], h)
                     | Search_returns None \<Rightarrow> Inr ([], h)
                     | Search_returns (Some []) \<Rightarrow> Inr ([], h)
                     | Search_returns (Some (candidates # _)) \<Rightarrow>
                         (case rank_into_buckets h names candidates of
                            Inl e \<Rightarrow> Inl e
                          | Inr ranked_lists \<Rightarrow>
                              (case interleave_lists (map snd ranked_lists) of
                                 Inl e \<Rightarrow> Inl e
                               | Inr final_list \<Rightarrow>
                                   (case dedup_and_format h final_list max_results of
                                      Inl e \<Rightarrow> Inl e
                                    | Inr (recs, h') \<Rightarrow> Inr (map Retrieved recs, h')))))))
      | _ \<Rightarrow> Inr ([Literal [''error'' \<mapsto> PStr ''Recommender not initialized'']], h))"

section \<open>Notions used to state the properties\<close>

subsection \<open>First occurrences\<close>

text \<open>The elements of a list whose key has not occurred before (and is not in \<open>seen\<close>),
  in the order of the list.\<close>

fun firsts :: "('a \<Rightarrow> 'k) \<Rightarrow> 'k set \<Rightarrow> 'a list \<Rightarrow> 'a list" where
  "firsts key seen [] = []"
| "firsts key seen (x # xs) =
     (if key x \<in> seen then firsts key seen xs
      else x # firsts key (insert (key x) seen) xs)"

subsection \<open>Candidates and categories\<close>

fun is_str :: "pyval option \<Rightarrow> bool" where
  "is_str (Some (PStr _)) = True"
| "is_str _ = False"

fun is_int :: "pyval option \<Rightarrow> bool" where
  "is_int (Some (PInt _)) = True"
| "is_int _ = False"

fun is_str_list :: "pyval option \<Rightarrow> bool" where
  "is_str_list (Some (PStrList _)) = True"
| "is_str_list _ = False"

text \<open>The field \<^verbatim>\<open>test_type\<close> of the candidate is a string, as the embedder stores it
  (\<^verbatim>\<open>embedder.py\<close>, line 49).\<close>

definition has_type_string :: "heap \<Rightarrow> ref \<Rightarrow> bool" where
  "has_type_string h m \<longleftrightarrow> is_str (h m ''test_type'')"

text \<open>The candidate's \<^verbatim>\<open>test_type\<close> string contains the category name.\<close>

definition type_contains :: "heap \<Rightarrow> ref \<Rightarrow> string \<Rightarrow> bool" where
  "type_contains h m type_name =
     (case h m ''test_type'' of Some (PStr s) \<Rightarrow> sublist type_name s | _ \<Rightarrow> False)"

text \<open>The first inferred category, in the order of the inferred list, that the
  candidate's \<^verbatim>\<open>test_type\<close> contains.\<close>

definition first_match :: "heap \<Rightarrow> string list \<Rightarrow> ref \<Rightarrow> string option" where
  "first_match h names m = find (type_contains h m) names"

text \<open>A dict given by its keys in order and the value of each key.\<close>

definition tabulate :: "('k \<Rightarrow> 'v) \<Rightarrow> 'k list \<Rightarrow> ('k \<times> 'v) list" where
  "tabulate g ks = map (\<lambda>k. (k, g k)) ks"

text \<open>The choice of bucket as the specification words it: the first category in the
  candidate's own type list that is one of the inferred categories.\<close>

definition spec_bucket_choice :: "string list \<Rightarrow> string list \<Rightarrow> string option" where
  "spec_bucket_choice names own_types = find (\<lambda>t. t \<in> set names) own_types"

subsection \<open>Round robin, as the specification words it\<close>

text \<open>Take the head of every bucket that is not exhausted, in bucket order, then go on
  with the tails, until all buckets are exhausted.\<close>

function round_robin :: "'a list list \<Rightarrow> 'a list" where
  "round_robin lsts =
     (let live = filter (\<lambda>l. l \<noteq> []) lsts
      in if live = [] then [] else map hd live @ round_robin (map tl live))"
  by pat_completeness auto

termination round_robin
proof (relation "measure (\<lambda>lsts. sum_list (map length lsts))")
  show "wf (measure (\<lambda>lsts. sum_list (map length lsts)))" by simp
next
  fix lsts :: "'a list list" and live
  assume live: "live = filter (\<lambda>l. l \<noteq> []) lsts" and ne: "live \<noteq> []"
  have le: "sum_list (map length (filter P xs)) \<le> sum_list (map length xs)"
    for P and xs :: "'a list list"
    by (induction xs) auto
  have less: "xs \<noteq> [] \<Longrightarrow> \<forall>l\<in>set xs. l \<noteq> [] \<Longrightarrow>
      sum_list (map length (map tl xs)) < sum_list (map length xs)"
    for xs :: "'a list list"
  proof (induction xs)
    case Nil
    then show ?case by simp
  next
    case (Cons l xs)
    show ?case
    proof (cases "xs = []")
      case True
      with Cons.prems show ?thesis by (cases l) auto
    next
      case False
      with Cons have "sum_list (map length (map tl xs)) < sum_list (map length xs)" by simp
      then show ?thesis by simp
    qed
  qed
  have "sum_list (map length (map tl live)) < sum_list (map length live)"
    using ne by (intro less) (auto simp: live)
  also have "\<dots> \<le> sum_list (map length lsts)"
    unfolding live by (rule le)
  finally show "(map tl live, lsts) \<in> measure (\<lambda>lsts. sum_list (map length lsts))" by simp
qed

declare round_robin.simps [simp del]

subsection \<open>The de-duplication loop\<close>

text \<open>The value of \<^verbatim>\<open>meta['url']\<close>.\<close>

definition url_of :: "heap \<Rightarrow> ref \<Rightarrow> pyval" where
  "url_of h m = the (h m ''url'')"

text \<open>The dict after line 154: \<^verbatim>\<open>test_type\<close> holds the list of the trimmed fields of
  the string it held.\<close>

definition normalized :: "pydict \<Rightarrow> pydict" where
  "normalized d =
     (case d ''test_type'' of
        Some (PStr s) \<Rightarrow> d(''test_type'' \<mapsto> PStrList (split_test_type s))
      | _ \<Rightarrow> d)"

text \<open>What the loop needs of an item it is still to visit: the url is a string, and
  \<^verbatim>\<open>test_type\<close> is a string unless the url has been seen (then line 154 is not
  reached for it).\<close>

definition pending :: "heap \<Rightarrow> pyval set \<Rightarrow> ref \<Rightarrow> bool" where
  "pending h seen m \<longleftrightarrow>
     (\<exists>u. h m ''url'' = Some (PStr u)
        \<and> (PStr u \<in> seen \<or> (\<exists>s. h m ''test_type'' = Some (PStr s))))"

subsection \<open>Records\<close>

text \<open>The candidate list that the broad search gives for the query: the first element
  of \<^verbatim>\<open>metadatas\<close>, and the empty list when the embedding or the search fails.\<close>

definition search_candidates :: "'v recommender \<Rightarrow> string \<Rightarrow> ref list" where
  "search_candidates self query =
     (case embed_model self of
        None \<Rightarrow> []
      | Some encode \<Rightarrow>
          (case encode query of
             None \<Rightarrow> []
           | Some query_embedding \<Rightarrow>
               (case collection_query self query_embedding 30 of
                  Search_returns (Some (candidates # _)) \<Rightarrow> candidates
                | _ \<Rightarrow> [])))"

text \<open>The keys of the metadata dicts that \<^verbatim>\<open>embedder.py\<close> stores (lines 45 to 53),
  which are the fields of \<^verbatim>\<open>AssessmentResponse\<close> in \<^verbatim>\<open>models.py\<close>.\<close>

definition metadata_fields :: "string list" where
  "metadata_fields = [''name'', ''url'', ''description'', ''test_type'', ''duration'',
     ''adaptive_support'', ''remote_support'']"

text \<open>A metadata dict as the embedder stores it: \<^verbatim>\<open>test_type\<close> is the comma-joined
  string, \<^verbatim>\<open>duration\<close> an integer.\<close>

definition stored_metadata :: "pydict \<Rightarrow> bool" where
  "stored_metadata d \<longleftrightarrow>
     dom d = set metadata_fields \<and> is_str (d ''name'') \<and> is_str (d ''url'')
     \<and> is_str (d ''description'') \<and> is_str (d ''test_type'') \<and> is_int (d ''duration'')
     \<and> is_str (d ''adaptive_support'') \<and> is_str (d ''remote_support'')"

text \<open>A record of the response (\<^verbatim>\<open>AssessmentResponse\<close>): exactly the seven fields,
  \<^verbatim>\<open>test_type\<close> a list of strings.\<close>

definition assessment_record :: "pydict \<Rightarrow> bool" where
  "assessment_record d \<longleftrightarrow>
     dom d = set metadata_fields \<and> is_str (d ''url'') \<and> is_str (d ''name'')
     \<and> is_str (d ''adaptive_support'') \<and> is_str (d ''description'') \<and> is_int (d ''duration'')
     \<and> is_str (d ''remote_support'') \<and> is_str_list (d ''test_type'')"

subsection \<open>A worked example\<close>

text \<open>Four retrieved candidates: 11 and 13 share a url, 12 lists two categories, 14
  matches neither inferred category. The classifier answers \<^verbatim>\<open>["K", "P"]\<close>.\<close>

definition example_item :: "string \<Rightarrow> string \<Rightarrow> pydict" where
  "example_item u t =
     [''name'' \<mapsto> PStr ''Assessment'', ''url'' \<mapsto> PStr u, ''description'' \<mapsto> PStr [],
      ''test_type'' \<mapsto> PStr t, ''duration'' \<mapsto> PInt 30,
      ''adaptive_support'' \<mapsto> PStr ''No'', ''remote_support'' \<mapsto> PStr ''Yes'']"

definition example_heap :: heap where
  "example_heap m =
     (if m = 11 then example_item ''u0'' ''Knowledge & Skills''
      else if m = 12 then example_item ''u1'' ''Personality & Behavior, Knowledge & Skills''
      else if m = 13 then example_item ''u0'' ''Personality & Behavior''
      else example_item ''u3'' ''Simulations'')"

definition example_names :: "string list" where
  "example_names = [''Knowledge & Skills'', ''Personality & Behavior'']"

definition example_recommender :: "nat recommender" where
  "example_recommender =
     \<lparr>client = True, embed_model = Some (\<lambda>q. Some 0),
      collection_query = (\<lambda>v n. Search_returns (Some [[11, 12, 13, 14]]))\<rparr>"

definition example_llm :: llm where
  "example_llm = Some (\<lambda>q. Llm_parsed (JArr [JStr ''K'', JStr ''P'']))"

definition example_heap_after :: heap where
  "example_heap_after m =
     (if m = 11 \<or> m = 12 then normalized (example_heap m) else example_heap m)"

section \<open>Interleaving\<close>

lemma fold_max_ge_init: "(n::nat) \<le> fold max ns n"
  by (induction ns arbitrary: n) (auto intro: order_trans [OF max.cobounded2])

lemma fold_max_ge_elem: "x \<in> set ns \<Longrightarrow> (x::nat) \<le> fold max ns n"
proof (induction ns arbitrary: n)
  case Nil
  then show ?case by simp
next
  case (Cons a ns)
  show ?case
  proof (cases "x = a")
    case True
    have "a \<le> max a n" by simp
    also have "\<dots> \<le> fold max ns (max a n)" by (rule fold_max_ge_init)
    finally show ?thesis using True by simp
  next
    case False
    with Cons show ?thesis by simp
  qed
qed

lemma py_max_bounds:
  "py_max ns = Inr k \<Longrightarrow> x \<in> set ns \<Longrightarrow> x \<le> k"
  by (cases ns) (auto simp: fold_max_ge_init fold_max_ge_elem)

lemma column_of_one_list:
  "length l \<le> k \<Longrightarrow> concat (map (\<lambda>i. if i < length l then [l ! i] else []) [0..<k]) = l"
proof -
  assume le: "length l \<le> k"
  have split: "[0..<k] = [0..<length l] @ [length l..<k]"
    using le by (metis le_add_diff_inverse upt_add_eq_append zero_le)
  have e: "map (\<lambda>i. if i < length l then [l ! i] else []) [0..<length l]
      = map (\<lambda>i. [l ! i]) [0..<length l]"
    by (rule map_cong) auto
  have a: "concat (map (\<lambda>i. if i < length l then [l ! i] else []) [0..<length l]) = l"
    unfolding e by (simp add: map_nth)
  have b: "concat (map (\<lambda>i. if i < length l then [l ! i] else []) [length l..<k]) = []"
    by simp
  show ?thesis unfolding split by (simp only: map_append concat_append a b append_Nil2)
qed

lemma mset_concat_map_append:
  "mset (concat (map (\<lambda>i. f i @ g i) xs)) = mset (concat (map f xs)) + mset (concat (map g xs))"
  by (induction xs) auto

lemma round_at_Cons:
  "round_at i (l # lsts) = (if i < length l then [l ! i] else []) @ round_at i lsts"
  by (simp add: round_at_def)

lemma mset_rounds:
  "\<forall>l\<in>set lsts. length l \<le> k \<Longrightarrow>
   mset (concat (map (\<lambda>i. round_at i lsts) [0..<k])) = mset (concat lsts)"
proof (induction lsts)
  case Nil
  then show ?case by (simp add: round_at_def)
next
  case (Cons l lsts)
  have "mset (concat (map (\<lambda>i. round_at i (l # lsts)) [0..<k]))
      = mset (concat (map (\<lambda>i. if i < length l then [l ! i] else []) [0..<k]))
        + mset (concat (map (\<lambda>i. round_at i lsts) [0..<k]))"
    by (simp only: round_at_Cons mset_concat_map_append)
  also have "\<dots> = mset l + mset (concat lsts)"
    using Cons by (simp add: column_of_one_list)
  finally show ?case by simp
qed

lemma interleave_lists_mset:
  "interleave_lists lsts = Inr out \<Longrightarrow> mset out = mset (concat lsts)"
proof -
  assume r: "interleave_lists lsts = Inr out"
  then obtain k where k: "py_max (map length lsts) = Inr k"
    and out: "out = concat (map (\<lambda>i. round_at i lsts) [0..<k])"
    by (auto simp: interleave_lists_def split: sum.splits)
  have "\<forall>l\<in>set lsts. length l \<le> k"
    using py_max_bounds [OF k] by simp
  then show ?thesis unfolding out by (rule mset_rounds)
qed

lemma interleave_lists_returns:
  "lsts \<noteq> [] \<Longrightarrow> \<exists>out. interleave_lists lsts = Inr out"
  by (cases lsts) (auto simp: interleave_lists_def)

lemma interleave_lists_set:
  "interleave_lists lsts = Inr out \<Longrightarrow> set out = \<Union> (set ` set lsts)"
proof -
  assume "interleave_lists lsts = Inr out"
  then have "mset out = mset (concat lsts)" by (rule interleave_lists_mset)
  then have "set out = set (concat lsts)" by (metis set_mset_mset)
  then show ?thesis by simp
qed

text \<open>For at least one bucket, the two nested loops compute the round robin of the
  specification.\<close>

lemma round_at_0: "round_at 0 lsts = map hd (filter (\<lambda>l. l \<noteq> []) lsts)"
proof (induction lsts)
  case Nil
  then show ?case by (simp add: round_at_def)
next
  case (Cons l lsts)
  then show ?case by (cases l) (simp_all add: round_at_Cons)
qed

lemma round_at_Suc: "round_at (Suc i) lsts = round_at i (map tl (filter (\<lambda>l. l \<noteq> []) lsts))"
proof (induction lsts)
  case Nil
  then show ?case by (simp add: round_at_def)
next
  case (Cons l lsts)
  then show ?case by (cases l) (simp_all add: round_at_Cons)
qed

lemma rounds_Suc:
  "concat (map (\<lambda>i. round_at i lsts) [0..<Suc k])
   = round_at 0 lsts @ concat (map (\<lambda>i. round_at (Suc i) lsts) [0..<k])"
proof -
  have "[0..<Suc k] = 0 # map Suc [0..<k]"
    by (simp add: upt_conv_Cons map_Suc_upt del: upt_Suc)
  then show ?thesis by (simp add: comp_def del: upt_Suc)
qed

lemma rounds_all_empty:
  "\<forall>l\<in>set lsts. l = [] \<Longrightarrow> concat (map (\<lambda>i. round_at i lsts) [0..<k]) = []"
  by (auto simp: round_at_def)

lemma rounds_round_robin:
  "\<forall>l\<in>set lsts. length l \<le> k \<Longrightarrow>
   concat (map (\<lambda>i. round_at i lsts) [0..<k]) = round_robin lsts"
proof (induction k arbitrary: lsts)
  case 0
  then have "filter (\<lambda>l. l \<noteq> []) lsts = []" by (auto simp: filter_empty_conv)
  then show ?case by (simp add: round_robin.simps [of lsts])
next
  case (Suc k)
  define live where "live = filter (\<lambda>l. l \<noteq> []) lsts"
  show ?case
  proof (cases "live = []")
    case True
    then have "\<forall>l\<in>set lsts. l = []" by (auto simp: live_def filter_empty_conv)
    then have "concat (map (\<lambda>i. round_at i lsts) [0..<Suc k]) = []"
      by (rule rounds_all_empty)
    moreover have "round_robin lsts = []"
      using True by (simp add: round_robin.simps [of lsts] live_def)
    ultimately show ?thesis by simp
  next
    case False
    have "\<forall>l\<in>set (map tl live). length l \<le> k"
      using Suc.prems by (auto simp: live_def)
    then have ih: "concat (map (\<lambda>i. round_at i (map tl live)) [0..<k]) = round_robin (map tl live)"
      by (rule Suc.IH)
    have "concat (map (\<lambda>i. round_at i lsts) [0..<Suc k])
        = map hd live @ concat (map (\<lambda>i. round_at i (map tl live)) [0..<k])"
      by (simp only: rounds_Suc round_at_0 round_at_Suc live_def)
    also have "\<dots> = map hd live @ round_robin (map tl live)"
      by (simp only: ih)
    also have "\<dots> = round_robin lsts"
      using False unfolding live_def by (simp add: round_robin.simps [of lsts] Let_def)
    finally show ?thesis .
  qed
qed

lemma interleave_lists_round_robin:
  assumes "lsts \<noteq> []"
  shows "interleave_lists lsts = Inr (round_robin lsts)"
proof -
  from assms obtain k where k: "py_max (map length lsts) = Inr k"
    by (cases lsts) auto
  have "\<forall>l\<in>set lsts. length l \<le> k" using py_max_bounds [OF k] by simp
  then show ?thesis by (simp add: interleave_lists_def k rounds_round_robin)
qed

text \<open>Buckets of sizes 3, 1 and 2.\<close>

lemma interleave_lists_sizes_3_1_2:
  "interleave_lists [[X1, X2, X3], [Y1], [Z1, Z2]] = Inr [X1, Y1, Z1, X2, Z2, X3]"
  by (simp add: interleave_lists_def round_at_def upt_rec)

section \<open>Category inference and key mapping\<close>

lemma analyze_query_with_llm_unconfigured:
  "analyze_query_with_llm None query = [JStr ''K'', JStr ''P'', JStr ''A'']"
  by (simp add: analyze_query_with_llm_def)

lemma analyze_query_with_llm_raises:
  "generate query = Llm_raises \<Longrightarrow>
   analyze_query_with_llm (Some generate) query = [JStr ''K'', JStr ''P'']"
  by (simp add: analyze_query_with_llm_def)

lemma analyze_query_with_llm_not_a_list:
  "generate query = Llm_parsed v \<Longrightarrow> \<forall>xs. v \<noteq> JArr xs \<Longrightarrow>
   analyze_query_with_llm (Some generate) query = [JStr ''K'', JStr ''P'']"
  by (cases v) (simp_all add: analyze_query_with_llm_def)

lemma analyze_query_with_llm_list:
  "generate query = Llm_parsed (JArr xs) \<Longrightarrow>
   analyze_query_with_llm (Some generate) query = xs"
  by (simp add: analyze_query_with_llm_def)

lemma required_type_names_unknown:
  "\<forall>k\<in>set keys. \<exists>s. k = JStr s \<and> map_of TEST_TYPE_MAP s = None \<Longrightarrow>
   required_type_names keys = Inr []"
  by (induction keys) auto

section \<open>Bucketing\<close>

lemma is_str_iff: "is_str v \<longleftrightarrow> (\<exists>s. v = Some (PStr s))"
  by (cases v rule: is_str.cases) auto

lemma has_type_stringE:
  assumes "has_type_string h m"
  obtains s where "h m ''test_type'' = Some (PStr s)"
  using assms by (auto simp: has_type_string_def is_str_iff)

lemma firsts_key_notin: "x \<in> set (firsts key seen xs) \<Longrightarrow> key x \<notin> seen \<and> x \<in> set xs"
  by (induction xs arbitrary: seen) (auto split: if_splits)

lemma distinct_firsts: "distinct (map key (firsts key seen xs))"
  by (induction xs arbitrary: seen) (auto dest: firsts_key_notin)

lemma set_firsts_keys: "key ` set (firsts key seen xs) = key ` set xs - seen"
  by (induction xs arbitrary: seen) auto

lemma distinct_firsts_id: "distinct (firsts id seen xs)"
  using distinct_firsts [of id seen xs] by simp

lemma set_firsts_id: "set (firsts id seen xs) = set xs - seen"
  using set_firsts_keys [of id seen xs] by simp

lemma dict_setitem_present:
  "distinct ks \<Longrightarrow> k \<in> set ks \<Longrightarrow>
   dict_setitem (tabulate g ks) k v = tabulate (g(k := v)) ks"
  by (induction ks) (auto simp: tabulate_def)

lemma dict_setitem_absent:
  "k \<notin> set ks \<Longrightarrow> dict_setitem (tabulate g ks) k v = tabulate g ks @ [(k, v)]"
  by (induction ks) (auto simp: tabulate_def)

lemma map_of_tabulate: "map_of (tabulate g ks) k = (if k \<in> set ks then Some (g k) else None)"
  by (induction ks) (auto simp: tabulate_def)

lemma fold_setitem_empty:
  "distinct ks \<Longrightarrow>
   fold (\<lambda>name d. dict_setitem d name []) names (tabulate (\<lambda>_. []) ks)
     = tabulate (\<lambda>_. []) (ks @ firsts id (set ks) names)"
proof (induction names arbitrary: ks)
  case Nil
  then show ?case by simp
next
  case (Cons n names)
  show ?case
  proof (cases "n \<in> set ks")
    case True
    have "(\<lambda>_. []) (n := []) = (\<lambda>_::'a. [] :: 'b list)" by auto
    with True Cons show ?thesis by (simp add: dict_setitem_present)
  next
    case False
    have "dict_setitem (tabulate (\<lambda>_. []) ks) n ([]::'b list) = tabulate (\<lambda>_. []) (ks @ [n])"
      using False by (simp add: dict_setitem_absent) (simp add: tabulate_def)
    moreover have "distinct (ks @ [n])" using False Cons.prems by simp
    ultimately show ?thesis using Cons.IH [of "ks @ [n]"] False by simp
  qed
qed

lemma empty_buckets_tabulate: "empty_buckets names = tabulate (\<lambda>_. []) (firsts id {} names)"
  using fold_setitem_empty [of "[]" names] by (simp add: empty_buckets_def tabulate_def)

lemma bucket_append_tabulate:
  "distinct ks \<Longrightarrow> k \<in> set ks \<Longrightarrow>
   bucket_append (tabulate g ks) k m = Inr (tabulate (g(k := g k @ [m])) ks)"
  by (simp add: bucket_append_def map_of_tabulate dict_setitem_present)

lemma type_name_in_str:
  "h m ''test_type'' = Some (PStr s) \<Longrightarrow> type_name_in n (h m) = Inr (type_contains h m n)"
  by (simp add: type_name_in_def type_contains_def)

lemma place_tabulate:
  assumes "h m ''test_type'' = Some (PStr s)" and "distinct ks" and "set names \<subseteq> set ks"
  shows "place h (tabulate g ks) m names
         = Inr (tabulate (case find (type_contains h m) names of
                            None \<Rightarrow> g | Some k \<Rightarrow> g(k := g k @ [m])) ks)"
  using assms(3)
proof (induction names)
  case Nil
  then show ?case by simp
next
  case (Cons n names)
  show ?case
  proof (cases "type_contains h m n")
    case True
    have "n \<in> set ks" using Cons.prems by simp
    then have "bucket_append (tabulate g ks) n m = Inr (tabulate (g(n := g n @ [m])) ks)"
      using assms(2) by (simp only: bucket_append_tabulate)
    then show ?thesis using True assms(1) by (simp add: type_name_in_str fun_upd_def)
  next
    case False
    then show ?thesis using Cons assms(1) by (simp add: type_name_in_str)
  qed
qed

lemma fill_buckets_tabulate:
  assumes "\<forall>m\<in>set ms. has_type_string h m"
    and "distinct ks" and "set names \<subseteq> set ks"
  shows "fill_buckets h (tabulate g ks) ms names
         = Inr (tabulate (\<lambda>n. g n @ [m \<leftarrow> ms. first_match h names m = Some n]) ks)"
  using assms(1)
proof (induction ms arbitrary: g)
  case Nil
  then show ?case by simp
next
  case (Cons m ms)
  from Cons.prems obtain s where s: "h m ''test_type'' = Some (PStr s)"
    by (auto elim: has_type_stringE)
  let ?g' = "case find (type_contains h m) names of None \<Rightarrow> g | Some k \<Rightarrow> g(k := g k @ [m])"
  have p: "place h (tabulate g ks) m names = Inr (tabulate ?g' ks)"
    using s assms(2,3) by (rule place_tabulate)
  have ih: "fill_buckets h (tabulate ?g' ks) ms names
         = Inr (tabulate (\<lambda>n. ?g' n @ [m \<leftarrow> ms. first_match h names m = Some n]) ks)"
    using Cons.IH [of ?g'] Cons.prems by simp
  have eq: "(\<lambda>n. ?g' n @ [m \<leftarrow> ms. first_match h names m = Some n])
          = (\<lambda>n. g n @ [m \<leftarrow> m # ms. first_match h names m = Some n])"
    by (auto simp: first_match_def fun_eq_iff split: option.splits)
  show ?case by (simp add: p ih eq)
qed

text \<open>The buckets after lines 134 to 142: one per inferred category, in the order of
  the first occurrences of the categories; each holds, in search order, the
  candidates whose first match is its category.\<close>

lemma rank_into_buckets_char:
  assumes "\<forall>m\<in>set candidates. has_type_string h m"
  shows "rank_into_buckets h names candidates
         = Inr (tabulate (\<lambda>n. [m \<leftarrow> candidates. first_match h names m = Some n])
                  (firsts id {} names))"
proof -
  have "fill_buckets h (tabulate (\<lambda>_. []) (firsts id {} names)) candidates names
      = Inr (tabulate (\<lambda>n. [] @ [m \<leftarrow> candidates. first_match h names m = Some n])
               (firsts id {} names))"
    using assms by (rule fill_buckets_tabulate) (simp_all add: distinct_firsts_id set_firsts_id)
  then show ?thesis by (simp add: rank_into_buckets_def empty_buckets_tabulate)
qed

lemma fill_buckets_no_names: "fill_buckets h d ms [] = Inr d"
  by (induction ms) simp_all

lemma rank_into_buckets_no_names: "rank_into_buckets h [] candidates = Inr []"
  by (simp add: rank_into_buckets_def empty_buckets_def fill_buckets_no_names)

lemma map_snd_tabulate: "map snd (tabulate g ks) = map g ks"
  by (simp add: tabulate_def comp_def)

lemma map_fst_tabulate: "map fst (tabulate g ks) = ks"
  by (simp add: tabulate_def comp_def)

lemma set_tabulate: "set (tabulate g ks) = (\<lambda>k. (k, g k)) ` set ks"
  by (simp add: tabulate_def)

lemma first_match_in_names: "first_match h names m = Some n \<Longrightarrow> n \<in> set names \<and> type_contains h m n"
  by (auto simp: first_match_def find_Some_iff)

lemma first_match_None: "first_match h names m = None \<longleftrightarrow> (\<forall>n\<in>set names. \<not> type_contains h m n)"
  by (auto simp: first_match_def find_None_iff)

lemma final_list_members:
  assumes "\<forall>m\<in>set candidates. has_type_string h m"
    and "rank_into_buckets h names candidates = Inr d"
    and "interleave_lists (map snd d) = Inr final"
  shows "set final = {m \<in> set candidates. first_match h names m \<noteq> None}"
proof -
  have d: "d = tabulate (\<lambda>n. [m \<leftarrow> candidates. first_match h names m = Some n]) (firsts id {} names)"
    using rank_into_buckets_char [OF assms(1), of names] assms(2) by simp
  have "set final = \<Union> (set ` set (map snd d))" using assms(3) by (rule interleave_lists_set)
  also have "\<dots> = (\<Union>n\<in>set names. {m \<in> set candidates. first_match h names m = Some n})"
    unfolding d by (simp add: map_snd_tabulate set_firsts_id)
  also have "\<dots> = {m \<in> set candidates. first_match h names m \<noteq> None}"
    by (auto dest: first_match_in_names)
  finally show ?thesis .
qed

section \<open>De-duplication and truncation\<close>

lemma normalized_url [simp]: "normalized d ''url'' = d ''url''"
  by (simp add: normalized_def split: option.splits pyval.splits)

lemma url_of_update [simp]: "url_of (h(m := normalized (h m))) = url_of h"
  by (auto simp: url_of_def fun_eq_iff)

lemma take_firsts_notin:
  "x \<in> set (take k (firsts key seen xs)) \<Longrightarrow> key x \<notin> seen"
  by (meson firsts_key_notin in_set_takeD)

lemma length_firsts:
  "finite seen \<Longrightarrow> length (firsts key seen xs) = card (key ` set xs - seen)"
proof -
  have "length (firsts key seen xs) = length (map key (firsts key seen xs))" by simp
  also have "\<dots> = card (set (map key (firsts key seen xs)))"
    by (rule distinct_card [symmetric]) (rule distinct_firsts)
  also have "\<dots> = card (key ` set xs - seen)" by (simp add: set_firsts_keys)
  finally show ?thesis .
qed

lemma normalized_str:
  "d ''test_type'' = Some (PStr s) \<Longrightarrow>
   normalized d = d(''test_type'' \<mapsto> PStrList (split_test_type s))"
  by (simp add: normalized_def)

text \<open>The loop on well-formed items, entered below the limit: it keeps the first
  occurrences of the urls not yet seen until the limit is reached, and line 154
  rewrites exactly the kept records.\<close>

lemma dedup_loop_char:
  assumes "\<forall>m\<in>set ms. pending h seen m" and "int (length recs) < lim"
  shows "dedup_loop h ms lim recs seen =
           Inr (recs @ take (nat lim - length recs) (firsts (url_of h) seen ms),
                (\<lambda>m. if m \<in> set (take (nat lim - length recs) (firsts (url_of h) seen ms))
                      then normalized (h m) else h m))"
  using assms
proof (induction ms arbitrary: h recs seen)
  case Nil
  then show ?case by simp
next
  case (Cons m ms)
  from Cons.prems(1) obtain u where u: "h m ''url'' = Some (PStr u)"
    and us: "PStr u \<in> seen \<or> (\<exists>s. h m ''test_type'' = Some (PStr s))"
    by (auto simp: pending_def)
  have key: "url_of h m = PStr u" using u by (simp add: url_of_def)
  show ?case
  proof (cases "PStr u \<in> seen")
    case True
    have "\<forall>m\<in>set ms. pending h seen m" using Cons.prems(1) by simp
    from Cons.IH [OF this Cons.prems(2)] show ?thesis
      using True u key Cons.prems(2) by simp
  next
    case False
    with us obtain s where s: "h m ''test_type'' = Some (PStr s)" by auto
    define h1 where "h1 = h(m := normalized (h m))"
    have h1: "h(m := (h m)(''test_type'' \<mapsto> PStrList (split_test_type s))) = h1"
      using s by (simp add: normalized_def h1_def)
    have url1: "url_of h1 = url_of h" by (simp add: h1_def)
    show ?thesis
    proof (cases "lim \<le> int (length recs) + 1")
      case True
      then have k: "nat lim - length recs = Suc 0" using Cons.prems(2) by linarith
      have "dedup_loop h (m # ms) lim recs seen = Inr (recs @ [m], h1)"
        using False u s True h1 by simp
      moreover have "h1 = (\<lambda>x. if x \<in> set [m] then normalized (h x) else h x)"
        by (auto simp: h1_def fun_eq_iff)
      ultimately show ?thesis using False key by (simp add: k)
    next
      case far: False
      then have lt: "int (length (recs @ [m])) < lim" by simp
      have k: "nat lim - length recs = Suc (nat lim - length (recs @ [m]))"
        using far by (simp add: Suc_diff_Suc nat_less_iff)
      have p: "\<forall>x\<in>set ms. pending h1 (insert (PStr u) seen) x"
      proof
        fix x assume "x \<in> set ms"
        then have px: "pending h seen x" using Cons.prems(1) by simp
        show "pending h1 (insert (PStr u) seen) x"
        proof (cases "x = m")
          case True
          then show ?thesis using u by (simp add: pending_def h1_def)
        next
          case False
          then show ?thesis using px by (auto simp: pending_def h1_def)
        qed
      qed
      define kept where
        "kept = take (nat lim - length (recs @ [m])) (firsts (url_of h) (insert (PStr u) seen) ms)"
      have ih: "dedup_loop h1 ms lim (recs @ [m]) (insert (PStr u) seen) =
           Inr ((recs @ [m]) @ kept, (\<lambda>x. if x \<in> set kept then normalized (h1 x) else h1 x))"
        using Cons.IH [OF p lt] by (simp only: url1 kept_def)
      have notin: "m \<notin> set kept"
        using take_firsts_notin [of m _ "url_of h" "insert (PStr u) seen" ms] key
        by (auto simp: kept_def)
      have heap: "(\<lambda>x. if x \<in> set kept then normalized (h1 x) else h1 x)
                = (\<lambda>x. if x \<in> set (m # kept) then normalized (h x) else h x)"
        using notin by (auto simp: fun_eq_iff h1_def)
      have step: "dedup_loop h (m # ms) lim recs seen
                = dedup_loop h1 ms lim (recs @ [m]) (insert (PStr u) seen)"
        using False u s far h1 by simp
      have fst: "take (nat lim - length recs) (firsts (url_of h) seen (m # ms)) = m # kept"
        using False key by (simp add: k kept_def)
      show ?thesis
        unfolding step ih heap fst by simp
    qed
  qed
qed

text \<open>Entered with a limit of zero or less, the loop keeps its first item: the test of
  line 160 comes after the append.\<close>

lemma dedup_loop_nonpositive:
  assumes "pending h {} m" and "lim \<le> 0"
  shows "dedup_and_format h (m # ms) lim = Inr ([m], h(m := normalized (h m)))"
proof -
  from assms(1) obtain u s where "h m ''url'' = Some (PStr u)" "h m ''test_type'' = Some (PStr s)"
    by (auto simp: pending_def)
  then show ?thesis using assms(2) by (simp add: dedup_and_format_def normalized_def)
qed

text \<open>Both cases together.\<close>

lemma dedup_and_format_char:
  assumes "\<forall>m\<in>set items. pending h {} m"
  shows "dedup_and_format h items lim =
           Inr (take (max 1 (nat lim)) (firsts (url_of h) {} items),
                (\<lambda>m. if m \<in> set (take (max 1 (nat lim)) (firsts (url_of h) {} items))
                      then normalized (h m) else h m))"
proof (cases "0 < lim")
  case True
  then have "max 1 (nat lim) = nat lim" by simp
  moreover have "int (length ([]::ref list)) < lim" using True by simp
  ultimately show ?thesis
    using dedup_loop_char [OF assms, of "[]" lim] by (simp add: dedup_and_format_def)
next
  case False
  then have m1: "max 1 (nat lim) = Suc 0" by simp
  show ?thesis
  proof (cases items)
    case Nil
    then show ?thesis by (simp add: dedup_and_format_def)
  next
    case (Cons m ms)
    then have "pending h {} m" using assms by simp
    then have "dedup_and_format h (m # ms) lim = Inr ([m], h(m := normalized (h m)))"
      using False by (intro dedup_loop_nonpositive) auto
    then show ?thesis unfolding Cons m1 by (auto simp: fun_eq_iff)
  qed
qed

text \<open>For a limit of at least 1: the kept records are the first \<open>limit\<close> first
  occurrences, their number is the smaller of the limit and the number of distinct
  urls, and no url is kept twice.\<close>

lemma dedup_and_format_positive_limit:
  assumes "\<forall>m\<in>set items. pending h {} m" and "1 \<le> lim"
  shows "\<exists>recs h'. dedup_and_format h items lim = Inr (recs, h')
           \<and> recs = take (nat lim) (firsts (url_of h) {} items)
           \<and> int (length recs) = min lim (int (card (url_of h ` set items)))
           \<and> distinct (map (url_of h) recs)"
proof -
  define recs where "recs = take (nat lim) (firsts (url_of h) {} items)"
  have m: "max 1 (nat lim) = nat lim" using assms(2) by simp
  have r: "dedup_and_format h items lim =
      Inr (recs, (\<lambda>m. if m \<in> set recs then normalized (h m) else h m))"
    using dedup_and_format_char [OF assms(1), of lim] by (simp only: m recs_def)
  have "length recs = min (nat lim) (card (url_of h ` set items))"
    by (simp add: recs_def length_firsts min.commute)
  then have l: "int (length recs) = min lim (int (card (url_of h ` set items)))"
    using assms(2) by simp
  have "distinct (take (nat lim) (map (url_of h) (firsts (url_of h) {} items)))"
    by (rule distinct_take) (rule distinct_firsts)
  then have d: "distinct (map (url_of h) recs)" by (simp add: recs_def take_map)
  show ?thesis using r l d recs_def by blast
qed

text \<open>Whatever the items are, a run of the loop that returns has changed the heap at
  the kept records only, and only as line 154 says.\<close>

lemma dedup_loop_frame:
  "dedup_loop h ms lim recs seen = Inr (out, h') \<Longrightarrow>
   \<exists>kept. out = recs @ kept \<and> set kept \<subseteq> set ms
      \<and> (\<forall>m\<in>set kept. \<exists>s. h m ''test_type'' = Some (PStr s))
      \<and> h' = (\<lambda>m. if m \<in> set kept then normalized (h m) else h m)"
proof (induction ms arbitrary: h recs seen)
  case Nil
  then show ?case by simp
next
  case (Cons m ms)
  from Cons.prems obtain u where u: "h m ''url'' = Some u" and hu: "hashable u"
    by (auto split: option.splits if_splits)
  show ?case
  proof (cases "u \<in> seen")
    case True
    show ?thesis
    proof (cases "lim \<le> int (length recs)")
      case stop: True
      then have "out = recs" "h' = h" using Cons.prems u hu True by auto
      then show ?thesis by (intro exI [of _ "[]"]) simp
    next
      case False
      then have "dedup_loop h ms lim recs seen = Inr (out, h')"
        using Cons.prems u hu True by auto
      from Cons.IH [OF this] obtain kept where k: "out = recs @ kept" "set kept \<subseteq> set ms"
        "\<forall>m\<in>set kept. \<exists>s. h m ''test_type'' = Some (PStr s)"
        "h' = (\<lambda>m. if m \<in> set kept then normalized (h m) else h m)" by blast
      then show ?thesis by (intro exI [of _ kept]) auto
    qed
  next
    case new: False
    from Cons.prems u hu new obtain s where s: "h m ''test_type'' = Some (PStr s)"
      by (auto split: option.splits pyval.splits)
    define h1 where "h1 = h(m := normalized (h m))"
    have h1: "h(m := (h m)(''test_type'' \<mapsto> PStrList (split_test_type s))) = h1"
      using s by (simp add: normalized_def h1_def)
    have h1m: "h1 m ''test_type'' = Some (PStrList (split_test_type s))"
      using s by (simp add: h1_def normalized_def)
    show ?thesis
    proof (cases "lim \<le> int (length recs) + 1")
      case True
      then have "out = recs @ [m]" "h' = h1" using Cons.prems u hu new s h1 by auto
      then show ?thesis using s by (intro exI [of _ "[m]"]) (auto simp: h1_def fun_eq_iff)
    next
      case False
      then have "dedup_loop h1 ms lim (recs @ [m]) (insert u seen) = Inr (out, h')"
        using Cons.prems u hu new s h1 by auto
      from Cons.IH [OF this] obtain kept where k: "out = (recs @ [m]) @ kept" "set kept \<subseteq> set ms"
        "\<forall>x\<in>set kept. \<exists>s. h1 x ''test_type'' = Some (PStr s)"
        "h' = (\<lambda>x. if x \<in> set kept then normalized (h1 x) else h1 x)" by blast
      have notin: "m \<notin> set kept" using k(3) h1m by auto
      have same: "\<forall>x\<in>set kept. h1 x = h x" using notin by (auto simp: h1_def)
      show ?thesis
      proof (intro exI [of _ "m # kept"] conjI)
        show "out = recs @ m # kept" using k(1) by simp
        show "set (m # kept) \<subseteq> set (m # ms)" using k(2) by auto
        show "\<forall>x\<in>set (m # kept). \<exists>s. h x ''test_type'' = Some (PStr s)"
          using s k(3) same by auto
        show "h' = (\<lambda>x. if x \<in> set (m # kept) then normalized (h x) else h x)"
          unfolding k(4) using notin by (auto simp: fun_eq_iff h1_def)
      qed
    qed
  qed
qed

lemma dedup_and_format_frame:
  assumes "dedup_and_format h items lim = Inr (recs, h')"
  shows "set recs \<subseteq> set items
       \<and> (\<forall>m\<in>set recs. \<exists>s. h m ''test_type'' = Some (PStr s))
       \<and> h' = (\<lambda>m. if m \<in> set recs then normalized (h m) else h m)"
  using dedup_loop_frame [of h items lim "[]" "{}" recs h'] assms
  by (auto simp: dedup_and_format_def)

section \<open>The pipeline\<close>

text \<open>The three ways in which \<^verbatim>\<open>get_recommendations\<close> returns a list.\<close>

lemma get_recommendations_Inr:
  assumes "get_recommendations self llm h query lim = Inr (out, h')"
  shows "(\<not> (client self \<and> embed_model self \<noteq> None)
            \<and> out = [Literal [''error'' \<mapsto> PStr ''Recommender not initialized'']] \<and> h' = h)
       \<or> (client self \<and> embed_model self \<noteq> None \<and> out = [] \<and> h' = h)
       \<or> (client self \<and> embed_model self \<noteq> None \<and>
           (\<exists>names d final recs.
              required_type_names (analyze_query_with_llm llm query) = Inr names
            \<and> rank_into_buckets h names (search_candidates self query) = Inr d
            \<and> interleave_lists (map snd d) = Inr final
            \<and> dedup_and_format h final lim = Inr (recs, h')
            \<and> out = map Retrieved recs))"
  using assms
  by (auto simp: get_recommendations_def search_candidates_def
           split: bool.splits option.splits sum.splits search_outcome.splits list.splits prod.splits)

lemma stored_metadata_pending: "stored_metadata (h m) \<Longrightarrow> pending h seen m"
  by (auto simp: stored_metadata_def pending_def is_str_iff)

lemma stored_metadata_normalized:
  assumes "stored_metadata d" and "d ''test_type'' = Some (PStr s)"
  shows "assessment_record (d(''test_type'' \<mapsto> PStrList (split_test_type s)))"
proof -
  have "''test_type'' \<in> dom d" using assms(2) by auto
  then have "dom (d(''test_type'' \<mapsto> PStrList (split_test_type s))) = dom d" by auto
  then show ?thesis using assms(1) by (simp add: stored_metadata_def assessment_record_def)
qed

section \<open>The worked example\<close>

lemma example_test_type:
  "example_heap 11 ''test_type'' = Some (PStr ''Knowledge & Skills'')"
  "example_heap 12 ''test_type'' = Some (PStr ''Personality & Behavior, Knowledge & Skills'')"
  "example_heap 13 ''test_type'' = Some (PStr ''Personality & Behavior'')"
  "example_heap 14 ''test_type'' = Some (PStr ''Simulations'')"
  by (simp_all add: example_heap_def example_item_def)

lemma example_url:
  "example_heap 11 ''url'' = Some (PStr ''u0'')"
  "example_heap 12 ''url'' = Some (PStr ''u1'')"
  "example_heap 13 ''url'' = Some (PStr ''u0'')"
  "example_heap 14 ''url'' = Some (PStr ''u3'')"
  by (simp_all add: example_heap_def example_item_def)

lemma example_type_contains:
  "type_contains example_heap 11 ''Knowledge & Skills''"
  "type_contains example_heap 12 ''Knowledge & Skills''"
  "\<not> type_contains example_heap 13 ''Knowledge & Skills''"
  "type_contains example_heap 13 ''Personality & Behavior''"
  "\<not> type_contains example_heap 14 ''Knowledge & Skills''"
  "\<not> type_contains example_heap 14 ''Personality & Behavior''"
  by (simp_all add: type_contains_def example_test_type sublist_code)

lemma example_names_mapped:
  "required_type_names (analyze_query_with_llm example_llm query) = Inr example_names"
  by (simp add: analyze_query_with_llm_def example_llm_def TEST_TYPE_MAP_def example_names_def)

lemma example_candidates:
  "search_candidates example_recommender query = [11, 12, 13, 14]"
  by (simp add: search_candidates_def example_recommender_def)

lemma example_wf: "\<forall>m\<in>set [11, 12, 13, 14]. has_type_string example_heap m"
  by (simp add: has_type_string_def example_test_type)

lemma example_buckets:
  "rank_into_buckets example_heap example_names [11, 12, 13, 14]
   = Inr [(''Knowledge & Skills'', [11, 12]), (''Personality & Behavior'', [13])]"
  using rank_into_buckets_char [OF example_wf, of example_names]
  by (simp add: tabulate_def first_match_def example_names_def example_type_contains)

lemma example_final_list:
  "interleave_lists [[11, 12], [13 :: ref]] = Inr [11, 13, 12]"
  by (simp add: interleave_lists_def round_at_def upt_rec)

lemma example_pending: "\<forall>m\<in>set [11, 13, 12]. pending example_heap {} m"
  by (simp add: pending_def example_url example_test_type)

lemma example_dedup:
  "dedup_and_format example_heap [11, 13, 12] 10 = Inr ([11, 12], example_heap_after)"
proof -
  have k: "take (max 1 (nat 10)) (firsts (url_of example_heap) {} [11, 13, 12]) = [11, 12]"
    by (simp add: url_of_def example_url)
  have "(\<lambda>m. if m \<in> set [11, 12] then normalized (example_heap m) else example_heap m)
      = example_heap_after"
    by (auto simp: example_heap_after_def fun_eq_iff)
  then show ?thesis
    using dedup_and_format_char [OF example_pending, of 10] by (simp only: k)
qed

lemma example_run:
  "get_recommendations example_recommender example_llm example_heap ''Java developer'' 10
   = Inr ([Retrieved 11, Retrieved 12], example_heap_after)"
  by (simp add: get_recommendations_def example_names_mapped example_recommender_def
        example_buckets example_final_list example_dedup)

lemma example_stored: "\<forall>m\<in>set (search_candidates example_recommender ''Java developer'').
    stored_metadata (example_heap m)"
  by (auto simp: example_candidates example_heap_def example_item_def stored_metadata_def
        metadata_fields_def)

section \<open>The claims\<close>

text \<open>
  Claim C1. The claim: for every input sequence of catalog items and every limit, the
  de-duplication and truncation step returns exactly min(limit, number of distinct
  urls) items, each url at most once, in the order of the first occurrences. For every
  limit of at least 1 this is \<open>dedup_and_format_positive_limit\<close>. With the limit 0 and
  two items of distinct urls the code returns one item, where the claim says none:
  the loop appends the first item before it compares the length with the limit.
\<close>

theorem dedup_and_format_limit_zero:
  "dedup_and_format example_heap [11, 12] 0
   = Inr ([11], example_heap(11 := normalized (example_heap 11)))"
  by (rule dedup_loop_nonpositive) (simp_all add: pending_def example_url example_test_type)

text \<open>
  Claim C2. The claim: for every sequence of buckets in priority order, the interleave
  operation emits index 0 of every bucket that is not exhausted, then index 1, and so
  on, until all buckets are exhausted. For every sequence of at least one bucket this
  is \<open>interleave_lists_round_robin\<close>, and \<open>interleave_lists_sizes_3_1_2\<close> is the
  example of the claim. For the empty sequence of buckets the code emits nothing and
  raises ValueError instead: \<^verbatim>\<open>max\<close> is applied to an empty sequence.
\<close>

theorem interleave_lists_no_buckets:
  "interleave_lists ([] :: ref list list) = Inl ValueError"
  by (simp add: interleave_lists_def)

text \<open>
  Claim C3. Candidates are processed in search order. For each one the inferred
  categories are scanned in their order and the candidate is appended to the bucket of
  the first category whose name its \<^verbatim>\<open>test_type\<close> string contains; so the bucket
  of a category holds, in search order, exactly the candidates whose first match it
  is, no candidate is in the buckets of two categories, a candidate that matches no
  inferred category is in no bucket, and it is in no list that
  \<^verbatim>\<open>get_recommendations\<close> returns.
\<close>

theorem bucketing_first_match_wins:
  assumes "\<forall>m\<in>set candidates. has_type_string h m"
  shows "\<exists>d. rank_into_buckets h names candidates = Inr d
       \<and> map fst d = firsts id {} names
       \<and> (\<forall>n\<in>set names.
            map_of d n = Some [m \<leftarrow> candidates. find (type_contains h m) names = Some n])
       \<and> (\<forall>n l n' l' m. (n, l) \<in> set d \<and> (n', l') \<in> set d \<and> m \<in> set l \<and> m \<in> set l'
            \<longrightarrow> n = n')
       \<and> (\<forall>m\<in>set candidates. (\<forall>n\<in>set names. \<not> type_contains h m n)
            \<longrightarrow> (\<forall>(n, l)\<in>set d. m \<notin> set l))
       \<and> (\<forall>self llm query lim out h'.
            required_type_names (analyze_query_with_llm llm query) = Inr names
            \<and> search_candidates self query = candidates
            \<and> get_recommendations self llm h query lim = Inr (out, h')
            \<longrightarrow> (\<forall>m\<in>set candidates. (\<forall>n\<in>set names. \<not> type_contains h m n)
                  \<longrightarrow> Retrieved m \<notin> set out))"
proof -
  define d where
    "d = tabulate (\<lambda>n. [m \<leftarrow> candidates. first_match h names m = Some n]) (firsts id {} names)"
  have r: "rank_into_buckets h names candidates = Inr d"
    unfolding d_def by (rule rank_into_buckets_char [OF assms])
  have keys: "map fst d = firsts id {} names" by (simp add: d_def map_fst_tabulate)
  have look: "\<forall>n\<in>set names.
      map_of d n = Some [m \<leftarrow> candidates. find (type_contains h m) names = Some n]"
    by (simp add: d_def map_of_tabulate set_firsts_id first_match_def)
  have excl: "\<forall>n l n' l' m. (n, l) \<in> set d \<and> (n', l') \<in> set d \<and> m \<in> set l \<and> m \<in> set l'
      \<longrightarrow> n = n'"
    by (auto simp: d_def set_tabulate)
  have none: "\<forall>m\<in>set candidates. (\<forall>n\<in>set names. \<not> type_contains h m n)
      \<longrightarrow> (\<forall>(n, l)\<in>set d. m \<notin> set l)"
    by (auto simp: d_def set_tabulate dest: first_match_in_names)
  have outp: "\<forall>(self :: 'a recommender) llm query lim out h'.
      required_type_names (analyze_query_with_llm llm query) = Inr names
      \<and> search_candidates self query = candidates
      \<and> get_recommendations self llm h query lim = Inr (out, h')
      \<longrightarrow> (\<forall>m\<in>set candidates. (\<forall>n\<in>set names. \<not> type_contains h m n)
            \<longrightarrow> Retrieved m \<notin> set out)"
  proof (intro allI impI ballI)
    fix self :: "'a recommender" and llm query lim out h' m
    assume a: "required_type_names (analyze_query_with_llm llm query) = Inr names
      \<and> search_candidates self query = candidates
      \<and> get_recommendations self llm h query lim = Inr (out, h')"
      and m: "m \<in> set candidates" and nm: "\<forall>n\<in>set names. \<not> type_contains h m n"
    from a have g: "get_recommendations self llm h query lim = Inr (out, h')" by simp
    show "Retrieved m \<notin> set out"
    proof
      assume in_out: "Retrieved m \<in> set out"
      from get_recommendations_Inr [OF g] in_out a r
      obtain final recs where f: "interleave_lists (map snd d) = Inr final"
        and dd: "dedup_and_format h final lim = Inr (recs, h')"
        and o: "out = map Retrieved recs"
        by auto
      from in_out o have "m \<in> set recs" by auto
      then have "m \<in> set final" using dedup_and_format_frame [OF dd] by auto
      then have "first_match h names m \<noteq> None"
        using final_list_members [OF assms r f] by simp
      then show False using nm by (simp add: first_match_None)
    qed
  qed
  show ?thesis using r keys look excl none outp by blast
qed

theorem bucketing_first_match_wins_witness:
  "\<exists>d. rank_into_buckets example_heap example_names [11, 12, 13, 14] = Inr d
       \<and> map fst d = example_names
       \<and> map_of d ''Knowledge & Skills'' = Some [11, 12]
       \<and> map_of d ''Personality & Behavior'' = Some [13]
       \<and> Retrieved 14 \<notin> set [Retrieved 11, Retrieved 12]"
proof -
  from bucketing_first_match_wins [OF example_wf, of example_names]
  obtain d where d: "rank_into_buckets example_heap example_names [11, 12, 13, 14] = Inr d"
    and k: "map fst d = firsts id {} example_names"
    and l: "\<forall>n\<in>set example_names.
        map_of d n = Some [m \<leftarrow> [11, 12, 13, 14]. find (type_contains example_heap m) example_names = Some n]"
    and o: "\<forall>(self :: nat recommender) llm query lim out h'.
            required_type_names (analyze_query_with_llm llm query) = Inr example_names
            \<and> search_candidates self query = [11, 12, 13, 14]
            \<and> get_recommendations self llm example_heap query lim = Inr (out, h')
            \<longrightarrow> (\<forall>m\<in>set [11, 12, 13, 14]. (\<forall>n\<in>set example_names. \<not> type_contains example_heap m n)
                  \<longrightarrow> Retrieved m \<notin> set out)"
    by blast
  have k': "map fst d = example_names" using k by (simp add: example_names_def)
  have l1: "map_of d ''Knowledge & Skills'' = Some [11, 12]"
    using l by (simp add: example_names_def example_type_contains)
  have l2: "map_of d ''Personality & Behavior'' = Some [13]"
    using l by (simp add: example_names_def example_type_contains)
  have "Retrieved 14 \<notin> set [Retrieved 11, Retrieved 12]"
    using o [rule_format, of example_llm "''Java developer''" example_recommender 10
        "[Retrieved 11, Retrieved 12]" example_heap_after 14]
    by (simp add: example_names_mapped example_candidates example_run
          example_names_def example_type_contains)
  then show ?thesis using d k' l1 l2 by blast
qed

text \<open>
  Claim C4. The claim: whatever the classifier does, category inference returns a
  fixed non-empty default and never an empty sequence. The code falls back when the
  call raises (\<open>analyze_query_with_llm_raises\<close>) and when the reply is not a list
  (\<open>analyze_query_with_llm_not_a_list\<close>), but a reply that is a list is returned as
  it is: when the classifier replies with the empty list, inference returns the empty
  list.
\<close>

theorem analyze_query_with_llm_empty_list:
  "analyze_query_with_llm (Some (\<lambda>q. Llm_parsed (JArr []))) ''Java developer'' = []"
  by (simp add: analyze_query_with_llm_def)

text \<open>
  Claim C5. The claim: the bucket of a candidate is the first category of the
  candidate's own type list that matches an inferred category. The code scans the
  inferred list, not the candidate's: for the inferred categories Knowledge and
  Skills, Personality and Behavior and a candidate whose own list starts with
  Personality and Behavior, the code chooses Knowledge and Skills.
\<close>

theorem bucket_choice_counterexample:
  "rank_into_buckets example_heap example_names [12]
     = Inr [(''Knowledge & Skills'', [12]), (''Personality & Behavior'', [])]
   \<and> example_heap 12 ''test_type'' = Some (PStr ''Personality & Behavior, Knowledge & Skills'')
   \<and> spec_bucket_choice example_names
        (split_test_type ''Personality & Behavior, Knowledge & Skills'')
     = Some ''Personality & Behavior''"
proof -
  have wf: "\<forall>m\<in>set [12]. has_type_string example_heap m"
    by (simp add: has_type_string_def example_test_type)
  have a: "rank_into_buckets example_heap example_names [12]
     = Inr [(''Knowledge & Skills'', [12]), (''Personality & Behavior'', [])]"
    using rank_into_buckets_char [OF wf, of example_names]
    by (simp add: tabulate_def first_match_def example_names_def example_type_contains)
  have b: "split_test_type ''Personality & Behavior, Knowledge & Skills''
     = [''Personality & Behavior'', ''Knowledge & Skills'']"
    by (simp add: split_test_type_def split_comma_def strip_def isspace_def)
  have c: "spec_bucket_choice example_names
        [''Personality & Behavior'', ''Knowledge & Skills''] = Some ''Personality & Behavior''"
    by (simp add: spec_bucket_choice_def example_names_def)
  show ?thesis by (simp only: a b c example_test_type simp_thms)
qed

text \<open>
  Claim C5, amended. For every candidate that is placed in a bucket, the bucket is
  that of the first category of the inferred-category list, in that list's order,
  whose name the candidate's \<^verbatim>\<open>test_type\<close> contains.
\<close>

theorem bucket_choice_inferred_order:
  assumes "\<forall>m\<in>set candidates. has_type_string h m"
    and "rank_into_buckets h names candidates = Inr d"
    and "(n, l) \<in> set d" and "m \<in> set l"
  shows "\<exists>i<length names. names ! i = n \<and> type_contains h m n
           \<and> (\<forall>j<i. \<not> type_contains h m (names ! j))"
proof -
  have d: "d = tabulate (\<lambda>n. [m \<leftarrow> candidates. first_match h names m = Some n]) (firsts id {} names)"
    using rank_into_buckets_char [OF assms(1), of names] assms(2) by simp
  from assms(3,4) have "find (type_contains h m) names = Some n"
    by (auto simp: d set_tabulate first_match_def)
  then show ?thesis by (auto simp: find_Some_iff)
qed

theorem bucket_choice_inferred_order_witness:
  "\<exists>i<length example_names. example_names ! i = ''Knowledge & Skills''
      \<and> type_contains example_heap 12 ''Knowledge & Skills''
      \<and> (\<forall>j<i. \<not> type_contains example_heap 12 (example_names ! j))"
  by (rule bucket_choice_inferred_order [OF example_wf example_buckets, of _ "[11, 12]"]) simp_all

text \<open>
  Claim C6. When the search is reached (the recommender is initialised, the key
  mapping and the embedding did not raise) and the search call raises, or returns no
  metadata, \<^verbatim>\<open>get_recommendations\<close> returns the empty list, and the heap is as it
  was.
\<close>

theorem get_recommendations_search_fails:
  assumes "client self" and "embed_model self = Some encode"
    and "required_type_names (analyze_query_with_llm llm query) = Inr names"
    and "encode query = Some v"
    and "collection_query self v 30 = Search_raises
         \<or> collection_query self v 30 = Search_returns None
         \<or> collection_query self v 30 = Search_returns (Some [])"
  shows "get_recommendations self llm h query max_results = Inr ([], h)"
  using assms by (auto simp: get_recommendations_def)

theorem get_recommendations_search_fails_witness:
  "get_recommendations (example_recommender\<lparr>collection_query := (\<lambda>v n. Search_raises)\<rparr>)
     None example_heap ''Java developer'' 10 = Inr ([], example_heap)"
  by (rule get_recommendations_search_fails [where encode = "\<lambda>q. Some 0" and v = 0
        and names = "[''Knowledge & Skills'', ''Personality & Behavior'', ''Ability & Aptitude'']"])
     (simp_all add: analyze_query_with_llm_def TEST_TYPE_MAP_def example_recommender_def)

text \<open>
  Claim C7. The claim: every record of the returned list has exactly the seven fields.
  A recommender that is not initialised returns a list of one record whose only field
  is \<^verbatim>\<open>error\<close>.
\<close>

theorem returned_records_counterexample:
  "get_recommendations (example_recommender\<lparr>client := False\<rparr>) example_llm example_heap
     ''Java developer'' 10
     = Inr ([Literal [''error'' \<mapsto> PStr ''Recommender not initialized'']], example_heap)
   \<and> dom (deref example_heap (Literal [''error'' \<mapsto> PStr ''Recommender not initialized'']))
     = {''error''}
   \<and> \<not> assessment_record
        (deref example_heap (Literal [''error'' \<mapsto> PStr ''Recommender not initialized'']))"
  by (simp add: get_recommendations_def example_recommender_def assessment_record_def)

text \<open>
  Claim C7, amended. When the recommender is initialised and every candidate of the
  broad search is a metadata dict as the embedder stores it, every record of the
  returned list is one of the candidates, with exactly the seven fields url, name,
  adaptive_support, description, duration, remote_support and test_type, and its
  test_type is the list of the whitespace-trimmed fields between the commas of the
  stored string.
\<close>

theorem returned_records_well_formed:
  assumes "client self" and "embed_model self = Some encode"
    and "\<forall>m\<in>set (search_candidates self query). stored_metadata (h m)"
    and "get_recommendations self llm h query lim = Inr (out, h')"
  shows "\<forall>r\<in>set out. \<exists>m s. r = Retrieved m \<and> m \<in> set (search_candidates self query)
           \<and> h m ''test_type'' = Some (PStr s)
           \<and> deref h' r = (h m)(''test_type'' \<mapsto> PStrList (split_test_type s))
           \<and> assessment_record (deref h' r)"
proof
  fix r assume rin: "r \<in> set out"
  have wf: "\<forall>m\<in>set (search_candidates self query). has_type_string h m"
    using assms(3) by (auto simp: stored_metadata_def has_type_string_def)
  from get_recommendations_Inr [OF assms(4)] rin assms(1,2)
  obtain names d final recs where
        rk: "rank_into_buckets h names (search_candidates self query) = Inr d"
    and f: "interleave_lists (map snd d) = Inr final"
    and dd: "dedup_and_format h final lim = Inr (recs, h')"
    and o: "out = map Retrieved recs"
    by auto
  from rin o obtain m where m: "r = Retrieved m" "m \<in> set recs" by auto
  note fr = dedup_and_format_frame [OF dd]
  from fr m obtain s where s: "h m ''test_type'' = Some (PStr s)" by auto
  have "m \<in> set final" using fr m by auto
  then have mc: "m \<in> set (search_candidates self query)"
    using final_list_members [OF wf rk f] by simp
  have h'm: "h' m = (h m)(''test_type'' \<mapsto> PStrList (split_test_type s))"
    using fr m s by (simp add: normalized_str)
  have ar: "assessment_record (h' m)"
    unfolding h'm using assms(3) mc s by (intro stored_metadata_normalized) auto
  have dr: "deref h' r = h' m" using m(1) by simp
  show "\<exists>m s. r = Retrieved m \<and> m \<in> set (search_candidates self query)
           \<and> h m ''test_type'' = Some (PStr s)
           \<and> deref h' r = (h m)(''test_type'' \<mapsto> PStrList (split_test_type s))
           \<and> assessment_record (deref h' r)"
    unfolding dr using m(1) mc s h'm ar by blast
qed

theorem returned_records_well_formed_witness:
  "assessment_record (deref example_heap_after (Retrieved 11))
   \<and> assessment_record (deref example_heap_after (Retrieved 12))
   \<and> example_heap_after 12 ''test_type''
       = Some (PStrList [''Personality & Behavior'', ''Knowledge & Skills''])"
proof -
  have "\<forall>r\<in>set [Retrieved 11, Retrieved 12].
      \<exists>m s. r = Retrieved m \<and> m \<in> set (search_candidates example_recommender ''Java developer'')
           \<and> example_heap m ''test_type'' = Some (PStr s)
           \<and> deref example_heap_after r = (example_heap m)(''test_type'' \<mapsto> PStrList (split_test_type s))
           \<and> assessment_record (deref example_heap_after r)"
    by (rule returned_records_well_formed [OF _ _ example_stored example_run])
       (simp_all add: example_recommender_def)
  then have a: "assessment_record (deref example_heap_after (Retrieved 11))"
    and b: "assessment_record (deref example_heap_after (Retrieved 12))" by auto
  have "example_heap_after 12 ''test_type''
       = Some (PStrList [''Personality & Behavior'', ''Knowledge & Skills''])"
    by (simp add: example_heap_after_def normalized_def example_test_type
          split_test_type_def split_comma_def strip_def isspace_def)
  with a b show ?thesis by simp
qed

text \<open>
  Claim C8. The claim: every field of every retrieved candidate is the same after the
  call as before. Line 154 assigns to \<^verbatim>\<open>meta['test_type']\<close> of the retrieved dict
  itself: after the call the field of a returned record holds a list where the search
  delivered a string.
\<close>

theorem retrieved_records_unchanged_counterexample:
  "get_recommendations example_recommender example_llm example_heap ''Java developer'' 10
     = Inr ([Retrieved 11, Retrieved 12], example_heap_after)
   \<and> example_heap 11 ''test_type'' = Some (PStr ''Knowledge & Skills'')
   \<and> example_heap_after 11 ''test_type'' = Some (PStrList [''Knowledge & Skills''])"
  by (simp add: example_run example_test_type example_heap_after_def normalized_def
        split_test_type_def split_comma_def strip_def isspace_def)

text \<open>
  Claim C8, amended. A call that returns a list changes nothing in a retrieved
  candidate that it does not return; in a candidate that it returns it replaces the
  string of \<^verbatim>\<open>test_type\<close> by the list of its trimmed fields; every other field of
  every candidate is the same after the call as before.
\<close>

theorem only_test_type_of_returned_records_changes:
  assumes "get_recommendations self llm h query lim = Inr (out, h')"
  shows "(\<forall>m. Retrieved m \<notin> set out \<longrightarrow> h' m = h m)
       \<and> (\<forall>m. Retrieved m \<in> set out \<longrightarrow>
             (\<exists>s. h m ''test_type'' = Some (PStr s)
                \<and> h' m = (h m)(''test_type'' \<mapsto> PStrList (split_test_type s))))
       \<and> (\<forall>m k. k \<noteq> ''test_type'' \<longrightarrow> h' m k = h m k)"
proof -
  from get_recommendations_Inr [OF assms]
  consider (same) "\<forall>m. Retrieved m \<notin> set out" "h' = h"
    | (main) final recs where "dedup_and_format h final lim = Inr (recs, h')"
        "out = map Retrieved recs"
    by auto
  then show ?thesis
  proof cases
    case same
    then show ?thesis by simp
  next
    case main
    note fr = dedup_and_format_frame [OF main(1)]
    have mem: "Retrieved m \<in> set out \<longleftrightarrow> m \<in> set recs" for m
      using main(2) by auto
    have a: "\<forall>m. Retrieved m \<notin> set out \<longrightarrow> h' m = h m" using fr mem by simp
    have b: "\<forall>m. Retrieved m \<in> set out \<longrightarrow>
             (\<exists>s. h m ''test_type'' = Some (PStr s)
                \<and> h' m = (h m)(''test_type'' \<mapsto> PStrList (split_test_type s)))"
    proof (intro allI impI)
      fix m assume "Retrieved m \<in> set out"
      then have mr: "m \<in> set recs" by (simp add: mem)
      with fr obtain s where s: "h m ''test_type'' = Some (PStr s)" by auto
      then show "\<exists>s. h m ''test_type'' = Some (PStr s)
                \<and> h' m = (h m)(''test_type'' \<mapsto> PStrList (split_test_type s))"
        using fr mr by (simp add: normalized_str)
    qed
    have c: "\<forall>m k. k \<noteq> ''test_type'' \<longrightarrow> h' m k = h m k"
    proof (intro allI impI)
      fix m k assume k: "k \<noteq> ''test_type''"
      show "h' m k = h m k"
      proof (cases "Retrieved m \<in> set out")
        case True
        with b obtain s where "h' m = (h m)(''test_type'' \<mapsto> PStrList (split_test_type s))"
          by blast
        then show ?thesis using k by simp
      next
        case False
        then show ?thesis using a by simp
      qed
    qed
    show ?thesis using a b c by blast
  qed
qed

theorem only_test_type_of_returned_records_changes_witness:
  "example_heap_after 13 = example_heap 13
   \<and> (\<exists>s. example_heap 11 ''test_type'' = Some (PStr s)
         \<and> example_heap_after 11 = (example_heap 11)(''test_type'' \<mapsto> PStrList (split_test_type s)))
   \<and> example_heap_after 11 ''url'' = example_heap 11 ''url''"
  using only_test_type_of_returned_records_changes [OF example_run] by simp

text \<open>
  Claim C9. When the list of mapped category names is empty and the broad search
  succeeds (it returns a non-empty \<^verbatim>\<open>metadatas\<close>), \<^verbatim>\<open>get_recommendations\<close>
  raises ValueError, from \<^verbatim>\<open>max\<close> in the interleave step, and returns no list.
  The list of names is empty when the classifier replies with the empty list, and
  when all its codes are strings outside the type map
  (\<open>required_type_names_unknown\<close>).
\<close>

theorem get_recommendations_no_names_raises:
  assumes "client self" and "embed_model self = Some encode"
    and "required_type_names (analyze_query_with_llm llm query) = Inr []"
    and "encode query = Some v"
    and "collection_query self v 30 = Search_returns (Some (candidates # rest))"
  shows "get_recommendations self llm h query max_results = Inl ValueError"
  using assms
  by (simp add: get_recommendations_def rank_into_buckets_no_names interleave_lists_def)

theorem get_recommendations_no_names_raises_witness:
  "get_recommendations example_recommender (Some (\<lambda>q. Llm_parsed (JArr [])))
     example_heap ''Java developer'' 10 = Inl ValueError"
  by (rule get_recommendations_no_names_raises [where encode = "\<lambda>q. Some 0" and v = 0
        and candidates = "[11, 12, 13, 14]" and rest = "[]"])
     (simp_all add: analyze_query_with_llm_def example_recommender_def)

text \<open>
  Claim C10. For every non-empty collection of buckets, \<^verbatim>\<open>_interleave_lists\<close>
  returns, and its output is a permutation of the concatenation of the buckets: the
  length of the output is the sum of the lengths of the buckets, and every element
  occurs in the output as often as in all buckets together.
\<close>

theorem interleave_lists_permutation:
  assumes "lsts \<noteq> []"
  shows "\<exists>out. interleave_lists lsts = Inr out
           \<and> mset out = mset (concat lsts)
           \<and> length out = sum_list (map length lsts)
           \<and> (\<forall>x. count (mset out) x = sum_list (map (\<lambda>l. count (mset l) x) lsts))"
proof -
  from assms obtain out where r: "interleave_lists lsts = Inr out"
    using interleave_lists_returns by blast
  have m: "mset out = mset (concat lsts)" by (rule interleave_lists_mset [OF r])
  have "length out = length (concat lsts)" by (metis m size_mset)
  then have l: "length out = sum_list (map length lsts)" by (simp add: length_concat)
  have c: "count (mset (concat ls)) x = sum_list (map (\<lambda>l. count (mset l) x) ls)"
    for ls :: "'a list list" and x
    by (induction ls) auto
  show ?thesis using r m l c by (auto simp: m)
qed

theorem interleave_lists_permutation_witness:
  "[[1, 2, 3], [4], [5, 6 :: nat]] \<noteq> [] \<and>
   (\<exists>out. interleave_lists [[1, 2, 3], [4], [5, 6 :: nat]] = Inr out
      \<and> mset out = mset (concat [[1, 2, 3], [4], [5, 6]])
      \<and> length out = sum_list (map length [[1, 2, 3], [4], [5, 6 :: nat]])
      \<and> (\<forall>x. count (mset out) x
             = sum_list (map (\<lambda>l. count (mset l) x) [[1, 2, 3], [4], [5, 6]])))"
  using interleave_lists_permutation [of "[[1, 2, 3], [4], [5, 6 :: nat]]"] by simp

end
